theory Spec2Isabelle
  imports Complex_Main "HOL-Library.Log_Nat"
begin

section \<open>Python values used by the notebook\<close>

text \<open>
  The notebook \<^verbatim>\<open>cybersecurity/grover_gaps.ipynb\<close> builds circuits with plain Python:
  unbounded integers, strings, lists and binary64 floats. Exceptions are values of
  \<open>error\<close>; a function that can raise returns \<open>error + 'a\<close>.
\<close>

datatype error = ValueError | OverflowError | ZeroDivisionError

text \<open>\<^verbatim>\<open>range(a, b)\<close>: the integers from \<open>a\<close> up to \<open>b - 1\<close>, empty when \<open>b \<le> a\<close>.\<close>

definition range_py :: "int \<Rightarrow> int \<Rightarrow> int list" where
  "range_py a b = [a..b - 1]"

text \<open>
  A list comprehension \<^verbatim>\<open>[f(x) for x in xs]\<close> whose body may raise: the first
  exception, in list order, ends the comprehension.
\<close>

fun list_comp :: "('a \<Rightarrow> error + 'b) \<Rightarrow> 'a list \<Rightarrow> error + 'b list" where
  "list_comp f [] = Inr []"
| "list_comp f (x # xs) =
     (case f x of
        Inl e \<Rightarrow> Inl e
      | Inr y \<Rightarrow> (case list_comp f xs of Inl e \<Rightarrow> Inl e | Inr ys \<Rightarrow> Inr (y # ys)))"

subsection \<open>\<^verbatim>\<open>bin\<close> and \<^verbatim>\<open>int\<close>\<close>

text \<open>The binary digits of a natural number, most significant first; \<open>0\<close> for zero.\<close>

definition bit_char :: "nat \<Rightarrow> char" where
  "bit_char d = (if d = 0 then CHR ''0'' else CHR ''1'')"

fun bin_digits :: "nat \<Rightarrow> string" where
  "bin_digits n = (if n < 2 then [bit_char n] else bin_digits (n div 2) @ [bit_char (n mod 2)])"

declare bin_digits.simps [simp del]

text \<open>\<^verbatim>\<open>bin(N)\<close>: the prefix \<open>0b\<close>, after a minus sign when \<open>N\<close> is negative.\<close>

definition bin_py :: "int \<Rightarrow> string" where
  "bin_py N = (if N < 0 then ''-0b'' @ bin_digits (nat (- N)) else ''0b'' @ bin_digits (nat N))"

text \<open>
  \<^verbatim>\<open>int(b)\<close> on a string of one character: an ASCII decimal digit gives its value, any
  other character (the \<open>b\<close> that a negative \<open>N\<close> leaves in the slice) raises ValueError.
\<close>

definition int_py :: "char \<Rightarrow> error + int" where
  "int_py c =
     (let v = (of_char c :: nat)
      in if 48 \<le> v \<and> v \<le> 57 then Inr (int v - 48) else Inl ValueError)"

text \<open>
  Line 361 of the notebook, inside \<^verbatim>\<open>factorize\<close>:
  \<^verbatim>\<open>Nj = [int(b) for b in bin(N)[2:][::-1]]\<close>
\<close>

definition Nj :: "int \<Rightarrow> error + int list" where
  "Nj N = list_comp int_py (rev (drop 2 (bin_py N)))"

subsection \<open>Measured bitstrings and their decoding\<close>

text \<open>
  A measured outcome is a bit array. \<^verbatim>\<open>to01\<close> writes it as a string of the characters
  \<open>0\<close> and \<open>1\<close> in index order; \<^verbatim>\<open>BitString(list)\<close> builds one from a list of 0/1 integers.
\<close>

type_synonym bitstring = "bool list"

definition BitString :: "int list \<Rightarrow> bitstring" where
  "BitString bs = map (\<lambda>b. b \<noteq> 0) bs"

definition to01 :: "bitstring \<Rightarrow> string" where
  "to01 bits = map (\<lambda>b. if b then CHR ''1'' else CHR ''0'') bits"

text \<open>
  \<^verbatim>\<open>int(s, 2)\<close> on the strings that \<^verbatim>\<open>to01\<close> produces: the first character is the most
  significant digit, and the empty string raises ValueError. (Signs, underscores, blanks
  and a \<open>0b\<close> prefix, which Python also accepts, never occur in a \<^verbatim>\<open>to01\<close> string; the
  model rejects them.)
\<close>

definition int_base2 :: "string \<Rightarrow> error + int" where
  "int_base2 s =
     (if s = [] \<or> \<not> list_all (\<lambda>c. c = CHR ''0'' \<or> c = CHR ''1'') s then Inl ValueError
      else Inr (foldl (\<lambda>acc c. 2 * acc + (if c = CHR ''1'' then 1 else 0)) 0 s))"

text \<open>Line 432: \<^verbatim>\<open>int(bitarray.to01(), 2)\<close> for one key of the histogram.\<close>

definition decode_outcome :: "bitstring \<Rightarrow> error + int" where
  "decode_outcome bitarray = int_base2 (to01 bitarray)"


section \<open>Circuits\<close>

text \<open>
  Modelled from the spec: the \<^verbatim>\<open>Circuit\<close> class of the simulator library, which the
  repository imports and does not define. Section 3 of the specification: a circuit is
  ``an ordered, append-only sequence of gate instructions'', each instruction an operation
  with the indices it acts on. \<^verbatim>\<open>Circuit()\<close> is the empty sequence, \<^verbatim>\<open>push\<close> adds one
  instruction at the end and \<^verbatim>\<open>append\<close> adds the instructions of another circuit.

  \<open>Amplitude\<close> is the only operation the notebook's code constructs. The other operations
  are the library gates that the specification names for the unfinished steps: bit flip,
  phase flip, phase rotation by an angle, a gate under a number of controls, and the
  diffusion primitive on a number of qubits.
\<close>

datatype operation =
    Amplitude bitstring
  | GateX
  | GateZ
  | GateP real
  | Control nat operation
  | Diffusion nat

datatype instruction = Instruction operation "int list"

type_synonym circuit = "instruction list"

definition Circuit :: circuit where
  "Circuit = []"

definition push :: "circuit \<Rightarrow> operation \<Rightarrow> int list \<Rightarrow> circuit" where
  "push circ opn targets = circ @ [Instruction opn targets]"

definition append_circ :: "circuit \<Rightarrow> circuit \<Rightarrow> circuit" where
  "append_circ circ other = circ @ other"

section \<open>Grover's algorithm (lines 90-175)\<close>

text \<open>
  \<^verbatim>\<open>grover(iterations, oracle_circ, callback=None)\<close>. The loop body appends
  \<^verbatim>\<open>callback(i)\<close> when a callback is given and does nothing else: the oracle and the
  diffusion steps are comments. The local \<^verbatim>\<open>nq\<close> is read from the oracle and never used.
\<close>

definition grover :: "int \<Rightarrow> circuit \<Rightarrow> (int \<Rightarrow> circuit) option \<Rightarrow> circuit" where
  "grover iterations oracle_circ callback =
     fold (\<lambda>i circ. case callback of None \<Rightarrow> circ | Some cb \<Rightarrow> append_circ circ (cb i))
       (range_py 0 iterations) Circuit"

text \<open>\<^verbatim>\<open>amplitude_callback(bitstring)\<close> returns the closure \<^verbatim>\<open>callback(i)\<close>.\<close>

definition amplitude_callback :: "bitstring \<Rightarrow> int \<Rightarrow> circuit" where
  "amplitude_callback bitstring i = push Circuit (Amplitude bitstring) [i]"

text \<open>
  \<^verbatim>\<open>oracle(bitstring)\<close>, named \<open>oracle_py\<close> here because the source's name is a keyword
  of Isabelle: the three steps are comments; the fresh circuit is returned.
\<close>

definition oracle_py :: "bitstring \<Rightarrow> circuit" where
  "oracle_py bitstring = (let nq = int (length bitstring); circ = Circuit in circ)"

section \<open>Multiplication in Fourier space (lines 305-322)\<close>

text \<open>
  The floats of \<^verbatim>\<open>PhiMultiply\<close> are binary64 values, modelled by the real numbers they
  denote. \<^verbatim>\<open>2*np.pi\<close> is the double \<open>884279719003555 / 2^47\<close>. \<^verbatim>\<open>2.0**e\<close> with an
  integer \<open>e\<close> is exact up to \<open>e = 1023\<close> and raises OverflowError from \<open>e = 1024\<close> on; below
  \<open>-1074\<close> it underflows to zero. Dividing by a power of two and taking the remainder of
  a positive value below the divisor are exact whenever the result is a normal double,
  which covers every exponent from 1 to 1023.
\<close>

definition two_pi :: real where
  "two_pi = 884279719003555 / 2 ^ 47"

definition float_pow2 :: "int \<Rightarrow> error + real" where
  "float_pow2 e =
     (if 1024 \<le> e then Inl OverflowError
      else if e < - 1074 then Inr 0
      else Inr (2 powi e))"

definition float_div :: "real \<Rightarrow> real \<Rightarrow> error + real" where
  "float_div x y = (if y = 0 then Inl ZeroDivisionError else Inr (x / y))"

definition float_mod :: "real \<Rightarrow> real \<Rightarrow> error + real" where
  "float_mod x y = (if y = 0 then Inl ZeroDivisionError else Inr (x - y * of_int \<lfloor>x / y\<rfloor>))"

text \<open>\<^verbatim>\<open>angle = 2*np.pi / 2.0**(k - j - i + 1)\<close>\<close>

definition angle_py :: "int \<Rightarrow> int \<Rightarrow> int \<Rightarrow> error + real" where
  "angle_py k j i =
     (case float_pow2 (k - j - i + 1) of Inl e \<Rightarrow> Inl e | Inr p \<Rightarrow> float_div two_pi p)"

text \<open>\<^verbatim>\<open>angle % (2*np.pi) != 0\<close>\<close>

definition guard_py :: "real \<Rightarrow> error + bool" where
  "guard_py angle = (case float_mod angle two_pi of Inl e \<Rightarrow> Inl e | Inr r \<Rightarrow> Inr (r \<noteq> 0))"

text \<open>A \<^verbatim>\<open>for\<close> loop whose body may raise.\<close>

fun for_each :: "'a list \<Rightarrow> ('a \<Rightarrow> 's \<Rightarrow> error + 's) \<Rightarrow> 's \<Rightarrow> error + 's" where
  "for_each [] body s = Inr s"
| "for_each (x # xs) body s =
     (case body x s of Inl e \<Rightarrow> Inl e | Inr s' \<Rightarrow> for_each xs body s')"

text \<open>
  The innermost body of \<^verbatim>\<open>PhiMultiply\<close>: the angle, the guard, and under the guard the
  statement \<^verbatim>\<open>pass\<close>. Both branches leave the circuit as it is.
\<close>

definition PhiMultiply_body :: "int \<Rightarrow> int \<Rightarrow> int \<Rightarrow> circuit \<Rightarrow> error + circuit" where
  "PhiMultiply_body j i k circ =
     (case angle_py k j i of
        Inl e \<Rightarrow> Inl e
      | Inr angle \<Rightarrow>
          (case guard_py angle of
             Inl e \<Rightarrow> Inl e
           | Inr g \<Rightarrow> if g then Inr circ else Inr circ))"

definition PhiMultiply :: "int list \<Rightarrow> int list \<Rightarrow> int list \<Rightarrow> error + circuit" where
  "PhiMultiply X Y Z =
     (let circ = Circuit; nx = int (length X); ny = int (length Y); nz = int (length Z)
      in for_each (range_py 0 nx) (\<lambda>j.
           for_each (range_py 0 ny) (\<lambda>i.
             for_each (range_py (i + j) nz) (\<lambda>k. PhiMultiply_body j i k))) circ)"

text \<open>The index triples \<open>(j, i, k)\<close> that the three nested loops visit, in order.\<close>

definition PhiMultiply_triples :: "int \<Rightarrow> int \<Rightarrow> int \<Rightarrow> (int \<times> int \<times> int) list" where
  "PhiMultiply_triples nx ny nz =
     concat (map (\<lambda>j. concat (map (\<lambda>i. map (\<lambda>k. (j, i, k)) (range_py (i + j) nz))
       (range_py 0 ny))) (range_py 0 nx))"

section \<open>The factoring circuit (lines 354-382)\<close>

text \<open>The three registers that \<^verbatim>\<open>factorize\<close> prepares from \<open>nx\<close> and \<open>ny\<close>.\<close>

definition factorize_registers :: "int \<Rightarrow> int \<Rightarrow> int list \<times> int list \<times> int list" where
  "factorize_registers nx ny =
     (let nz = nx + ny + 1;
          X = range_py 0 nx;
          Y = range_py nx (nx + ny);
          Z = range_py (nx + ny) (nx + ny + nz)
      in (X, Y, Z))"

text \<open>
  A register is contiguous when its indices are consecutive, in increasing order.
\<close>

definition contiguous :: "int list \<Rightarrow> bool" where
  "contiguous xs = (case xs of [] \<Rightarrow> True | x # _ \<Rightarrow> xs = range_py x (x + int (length xs)))"

text \<open>
  \<^verbatim>\<open>factorize(N, K, nx, ny)\<close>: the registers, the digits \<open>Nj\<close> (which raise for a negative
  \<open>N\<close>), a fresh circuit, and a Grover loop of \<open>K\<close> rounds whose body is \<^verbatim>\<open>pass\<close>.
  Initialisation, oracle, diffusion and measurement are comments.
\<close>

definition factorize :: "int \<Rightarrow> int \<Rightarrow> int \<Rightarrow> int \<Rightarrow> error + circuit" where
  "factorize N K nx ny =
     (case factorize_registers nx ny of
        (X, Y, Z) \<Rightarrow>
          (case Nj N of
             Inl e \<Rightarrow> Inl e
           | Inr Nj_bits \<Rightarrow> Inr (fold (\<lambda>k circ. circ) (range_py 0 K) Circuit)))"

section \<open>What the specification asks of the unfinished steps\<close>

text \<open>
  The specification describes the circuits that the comments of the notebook announce.
  These definitions follow the specification's words, for comparison with the code.
\<close>

text \<open>Section 4.4: for each iteration, callback (if any), then oracle, then diffusion.\<close>

definition grover_spec ::
  "int \<Rightarrow> circuit \<Rightarrow> (int \<Rightarrow> circuit) option \<Rightarrow> circuit \<Rightarrow> circuit" where
  "grover_spec iterations oracle_circ callback diffusion_circ =
     concat (map (\<lambda>i. (case callback of None \<Rightarrow> [] | Some cb \<Rightarrow> cb i) @ oracle_circ @ diffusion_circ)
       (range_py 0 iterations))"

text \<open>Section 4.2: X on every qubit whose bit is 0, one multicontrol-Z, the same X gates.\<close>

definition flips_spec :: "bitstring \<Rightarrow> circuit" where
  "flips_spec bitstring =
     map (\<lambda>q. Instruction GateX [int q]) (filter (\<lambda>q. \<not> bitstring ! q) [0..<length bitstring])"

definition oracle_spec :: "bitstring \<Rightarrow> circuit" where
  "oracle_spec bitstring =
     flips_spec bitstring
     @ [Instruction (Control (length bitstring - 1) GateZ) (map int [0..<length bitstring])]
     @ flips_spec bitstring"

text \<open>
  Section 4.5: one doubly-controlled phase gate per triple, with angle
  \<open>2\<pi> / 2^(k - j - i + 1)\<close>, left out when the angle is a multiple of \<open>2\<pi>\<close>, which is
  when the exponent is zero or negative.
\<close>

definition PhiMultiply_spec :: "int list \<Rightarrow> int list \<Rightarrow> int list \<Rightarrow> circuit" where
  "PhiMultiply_spec X Y Z =
     map (\<lambda>(j, i, k). Instruction (Control 2 (GateP (2 * pi / 2 powi (k - j - i + 1))))
            [X ! nat j, Y ! nat i, Z ! nat k])
       (filter (\<lambda>(j, i, k). 0 < k - j - i + 1)
          (PhiMultiply_triples (int (length X)) (int (length Y)) (int (length Z))))"

section \<open>Circuit objects in a store\<close>

text \<open>
  Python circuits are mutable objects. To speak about fresh allocation and about what a
  call changes, the store is the list of all circuit objects and a reference is an index
  into it. \<^verbatim>\<open>Circuit()\<close> allocates at the end; \<^verbatim>\<open>push\<close> and \<^verbatim>\<open>append\<close> update the
  object they are called on.
\<close>

type_synonym store = "circuit list"

definition Circuit_new :: "store \<Rightarrow> nat \<times> store" where
  "Circuit_new h = (length h, h @ [Circuit])"

definition push_at :: "nat \<Rightarrow> operation \<Rightarrow> int list \<Rightarrow> store \<Rightarrow> store" where
  "push_at a opn targets h = h[a := push (h ! a) opn targets]"

definition append_at :: "nat \<Rightarrow> nat \<Rightarrow> store \<Rightarrow> store" where
  "append_at a b h = h[a := append_circ (h ! a) (h ! b)]"

text \<open>\<^verbatim>\<open>amplitude_callback(bitstring)\<close>'s closure: a new circuit with one instruction.\<close>

definition amplitude_callback_st :: "bitstring \<Rightarrow> int \<Rightarrow> store \<Rightarrow> nat \<times> store" where
  "amplitude_callback_st bitstring i h =
     (case Circuit_new h of (circ, h1) \<Rightarrow> (circ, push_at circ (Amplitude bitstring) [i] h1))"

definition grover_st ::
  "int \<Rightarrow> nat \<Rightarrow> (int \<Rightarrow> store \<Rightarrow> nat \<times> store) option \<Rightarrow> store \<Rightarrow> nat \<times> store" where
  "grover_st iterations oracle_circ callback h =
     (case Circuit_new h of
        (circ, h0) \<Rightarrow>
          (circ,
           fold (\<lambda>i h1. case callback of
                          None \<Rightarrow> h1
                        | Some cb \<Rightarrow> (case cb i h1 of (c, h2) \<Rightarrow> append_at circ c h2))
             (range_py 0 iterations) h0))"

definition factorize_st :: "int \<Rightarrow> int \<Rightarrow> int \<Rightarrow> int \<Rightarrow> store \<Rightarrow> error + nat \<times> store" where
  "factorize_st N K nx ny h =
     (case factorize_registers nx ny of
        (X, Y, Z) \<Rightarrow>
          (case Nj N of
             Inl e \<Rightarrow> Inl e
           | Inr Nj_bits \<Rightarrow>
               (case Circuit_new h of
                  (circ, h0) \<Rightarrow> Inr (circ, fold (\<lambda>k h1. h1) (range_py 0 K) h0))))"

text \<open>
  A callback that a caller may pass as well: it keeps one circuit object, pushes onto
  it at every call and returns it.
  \<^verbatim>\<open>shared = Circuit()\<close>;
  \<^verbatim>\<open>def callback(i): shared.push(Amplitude(bitstring), i); return shared\<close>
\<close>

definition shared_callback_st :: "nat \<Rightarrow> bitstring \<Rightarrow> int \<Rightarrow> store \<Rightarrow> nat \<times> store" where
  "shared_callback_st shared bitstring i h = (shared, push_at shared (Amplitude bitstring) [i] h)"

text \<open>
  A callback that behaves like \<^verbatim>\<open>amplitude_callback\<close>'s: on every store it leaves the
  objects already there as they are, and returns a reference to a circuit whose
  instructions \<open>f i\<close> depend on the iteration index only.
\<close>

definition builds :: "(int \<Rightarrow> store \<Rightarrow> nat \<times> store) \<Rightarrow> (int \<Rightarrow> circuit) \<Rightarrow> bool" where
  "builds cb f =
     (\<forall>i h. case cb i h of
              (c, h') \<Rightarrow> take (length h) h' = h \<and> length h \<le> length h' \<and> c < length h' \<and> h' ! c = f i)"

definition callback_refines ::
  "(int \<Rightarrow> store \<Rightarrow> nat \<times> store) option \<Rightarrow> (int \<Rightarrow> circuit) option \<Rightarrow> bool" where
  "callback_refines callback_st callback =
     (case (callback_st, callback) of
        (None, None) \<Rightarrow> True
      | (Some cb, Some f) \<Rightarrow> builds cb f
      | _ \<Rightarrow> False)"


section \<open>The digits of \<open>N\<close>\<close>

lemma int_py_bit_char: "int_py (bit_char d) = Inr (if d = 0 then 0 else 1)"
  by (simp add: int_py_def bit_char_def)

lemma floorlog_half: "2 \<le> n \<Longrightarrow> floorlog 2 n = Suc (floorlog 2 (n div 2))"
  using compute_floorlog [of 2 n] by simp

lemma map_upt_Suc_shift: "map f [0..<Suc m] = f 0 # map (\<lambda>b. f (Suc b)) [0..<m]"
  by (simp add: upt_conv_Cons map_Suc_upt [symmetric] del: upt_Suc)

lemma digits_lsb:
  "list_comp int_py (rev (bin_digits n)) =
     Inr (map (\<lambda>b. int (n div 2 ^ b mod 2)) [0..<(if n = 0 then 1 else floorlog 2 n)])"
proof (induction n rule: bin_digits.induct)
  case (1 n)
  show ?case
  proof (cases "n < 2")
    case True
    then have "n = 0 \<or> n = 1" by arith
    moreover have "bin_digits n = [bit_char n]"
      using True by (subst bin_digits.simps) simp
    moreover have "floorlog 2 (1::nat) = 1"
      by (simp add: floorlog_def)
    ultimately show ?thesis
      by (auto simp: int_py_bit_char)
  next
    case False
    then have n2: "2 \<le> n" and h0: "n div 2 \<noteq> 0" by auto
    have len: "(if n = 0 then 1 else floorlog 2 n) = Suc (floorlog 2 (n div 2))"
      using n2 by (simp add: floorlog_half)
    have ih: "list_comp int_py (rev (bin_digits (n div 2))) =
        Inr (map (\<lambda>b. int (n div 2 div 2 ^ b mod 2)) [0..<floorlog 2 (n div 2)])"
      using "1.IH" [OF False] h0 by simp
    have shift: "\<And>b. n div 2 div 2 ^ b = n div 2 ^ Suc b"
      by (simp add: div_mult2_eq)
    have "bin_digits n = bin_digits (n div 2) @ [bit_char (n mod 2)]"
      using False by (subst bin_digits.simps) simp
    then have "list_comp int_py (rev (bin_digits n)) =
        Inr (int (n mod 2) # map (\<lambda>b. int (n div 2 ^ Suc b mod 2)) [0..<floorlog 2 (n div 2)])"
      by (auto simp: int_py_bit_char ih shift)
    also have "\<dots> = Inr (map (\<lambda>b. int (n div 2 ^ b mod 2)) [0..<Suc (floorlog 2 (n div 2))])"
      by (simp only: map_upt_Suc_shift) simp
    finally show ?thesis by (simp only: len)
  qed
qed

lemma Nj_nonneg:
  assumes "0 \<le> N"
  shows "Nj N = Inr (map (\<lambda>b. drop_bit b N mod 2) [0..<(if N = 0 then 1 else floorlog 2 (nat N))])"
proof -
  have "Nj N = list_comp int_py (rev (bin_digits (nat N)))"
    using assms by (simp add: Nj_def bin_py_def)
  also have "\<dots> = Inr (map (\<lambda>b. int (nat N div 2 ^ b mod 2)) [0..<(if nat N = 0 then 1 else floorlog 2 (nat N))])"
    by (rule digits_lsb)
  also have "\<dots> = Inr (map (\<lambda>b. drop_bit b N mod 2) [0..<(if N = 0 then 1 else floorlog 2 (nat N))])"
  proof -
    have "\<And>b. int (nat N div 2 ^ b mod 2) = drop_bit b N mod 2"
      using assms by (simp add: drop_bit_eq_div zmod_int zdiv_int)
    moreover have "(nat N = 0) = (N = 0)" using assms by auto
    ultimately show ?thesis by simp
  qed
  finally show ?thesis .
qed

lemma list_comp_snoc_error:
  "f x = Inl e \<Longrightarrow> list_comp f xs = Inr ys \<Longrightarrow> list_comp f (xs @ [x]) = Inl e"
  by (induction xs arbitrary: ys) (auto split: sum.splits)

lemma Nj_negative:
  assumes "N < 0"
  shows "Nj N = Inl ValueError"
proof -
  have "rev (drop 2 (bin_py N)) = rev (bin_digits (nat (- N))) @ [CHR ''b'']"
    using assms by (simp add: bin_py_def)
  moreover have "int_py CHR ''b'' = Inl ValueError"
    by (simp add: int_py_def)
  ultimately show ?thesis
    unfolding Nj_def using list_comp_snoc_error digits_lsb by metis
qed

lemma floorlog_pos_bounds:
  assumes "1 \<le> N"
  shows "2 ^ (floorlog 2 (nat N) - 1) \<le> N" and "N < 2 ^ floorlog 2 (nat N)" and "0 < floorlog 2 (nat N)"
proof -
  have pos: "0 < nat N" using assms by simp
  have b: "2 ^ (floorlog 2 (nat N) - 1) \<le> nat N \<and> nat N < 2 ^ floorlog 2 (nat N)"
    using floorlog_bounds [of "nat N" 2] pos by simp
  from b have "int (2 ^ (floorlog 2 (nat N) - 1)) \<le> int (nat N)" by (simp only: of_nat_le_iff)
  then show "2 ^ (floorlog 2 (nat N) - 1) \<le> N" using assms by simp
  from b have "int (nat N) < int (2 ^ floorlog 2 (nat N))" by (simp only: of_nat_less_iff)
  then show "N < 2 ^ floorlog 2 (nat N)" using assms by simp
  show "0 < floorlog 2 (nat N)" using pos by (simp add: floorlog_def)
qed

text \<open>
  Claim C7. For every integer \<open>N \<ge> 0\<close> the digit list \<open>Nj\<close> of \<^verbatim>\<open>factorize\<close> is the binary
  expansion of \<open>N\<close>, least significant bit first: the entry at position \<open>b\<close> is
  \<open>(N >> b) mod 2\<close>, and the list is long enough to hold all of \<open>N\<close>.
\<close>

theorem Nj_lsb_first:
  assumes "0 \<le> N"
  shows "\<exists>n. N < 2 ^ n \<and> 0 < n \<and> Nj N = Inr (map (\<lambda>b. drop_bit b N mod 2) [0..<n])"
proof (cases "N = 0")
  case True
  then have "Nj N = Inr (map (\<lambda>b. drop_bit b N mod 2) [0..<1])"
    using Nj_nonneg [of N] by simp
  then show ?thesis using True by (intro exI [of _ 1]) simp
next
  case False
  then have "1 \<le> N" using assms by simp
  then show ?thesis
    using Nj_nonneg [OF assms] floorlog_pos_bounds [of N] False
    by (intro exI [of _ "floorlog 2 (nat N)"]) simp
qed

theorem Nj_lsb_first_witness:
  "(0::int) \<le> 6 \<and> (\<exists>n. (6::int) < 2 ^ n \<and> 0 < n \<and> Nj 6 = Inr (map (\<lambda>b. drop_bit b 6 mod 2) [0..<n]))"
  using Nj_lsb_first [of 6] by simp

lemma last_digit_one:
  assumes "1 \<le> N"
  shows "drop_bit (floorlog 2 (nat N) - 1) N mod 2 = 1"
proof -
  let ?m = "floorlog 2 (nat N) - 1"
  have lo: "2 ^ ?m \<le> N" and hi: "N < 2 ^ Suc ?m"
    using floorlog_pos_bounds [OF assms] by simp_all
  have "N div 2 ^ ?m = 1"
  proof (rule int_div_pos_eq [where r = "N - 2 ^ ?m"])
    show "N = 2 ^ ?m * 1 + (N - 2 ^ ?m)" by simp
    show "0 \<le> N - 2 ^ ?m" using lo by simp
    show "N - 2 ^ ?m < 2 ^ ?m" using hi by simp
  qed
  then show ?thesis by (simp add: drop_bit_eq_div)
qed

text \<open>
  Claim C10. For every \<open>N \<ge> 1\<close> the digit list has exactly \<open>\<lfloor>log\<^sub>2 N\<rfloor> + 1\<close> entries and ends
  in 1, so it is not padded to the length of the Z register; and \<^verbatim>\<open>factorize\<close> does not
  compare the two lengths: for \<open>N \<ge> 2^nz\<close> it still returns a circuit, while the digit list
  is longer than Z.
\<close>

theorem Nj_length_unpadded:
  assumes "1 \<le> N"
  shows "\<exists>bs. Nj N = Inr bs \<and> length bs = nat \<lfloor>log 2 (real_of_int N)\<rfloor> + 1 \<and> last bs = 1 \<and>
           (2 ^ nat (nx + ny + 1) \<le> N \<longrightarrow>
              (\<exists>circ. factorize N K nx ny = Inr circ) \<and>
              length (snd (snd (factorize_registers nx ny))) < length bs)"
proof -
  let ?L = "floorlog 2 (nat N)"
  let ?bs = "map (\<lambda>b. drop_bit b N mod 2) [0..<?L]"
  have N0: "0 \<le> N" "N \<noteq> 0" using assms by simp_all
  have Nj: "Nj N = Inr ?bs" using Nj_nonneg [OF N0(1)] N0(2) by simp
  have Lpos: "0 < ?L" by (rule floorlog_pos_bounds(3) [OF assms])
  have len: "length ?bs = nat \<lfloor>log 2 (real_of_int N)\<rfloor> + 1"
    using assms by (simp add: floorlog_def)
  have "?bs \<noteq> []" using Lpos by simp
  then have "last ?bs = ?bs ! (length ?bs - 1)" by (rule last_conv_nth)
  also have "\<dots> = drop_bit (?L - 1) N mod 2" using Lpos by simp
  also have "\<dots> = 1" by (rule last_digit_one [OF assms])
  finally have lst: "last ?bs = 1" .
  have big: "(\<exists>circ. factorize N K nx ny = Inr circ) \<and>
      length (snd (snd (factorize_registers nx ny))) < length ?bs"
    if h: "2 ^ nat (nx + ny + 1) \<le> N"
  proof
    show "\<exists>circ. factorize N K nx ny = Inr circ"
      by (simp add: factorize_def factorize_registers_def Nj)
    have "(2::int) ^ nat (nx + ny + 1) < 2 ^ ?L"
      using h floorlog_pos_bounds(2) [OF assms] by (rule le_less_trans)
    then have "nat (nx + ny + 1) < ?L" by simp
    moreover have "length (snd (snd (factorize_registers nx ny))) = nat (nx + ny + 1)"
      by (simp add: factorize_registers_def range_py_def)
    ultimately show "length (snd (snd (factorize_registers nx ny))) < length ?bs" by simp
  qed
  show ?thesis
    using Nj len lst big by (intro exI [of _ ?bs]) blast
qed

theorem Nj_length_unpadded_witness:
  "(1::int) \<le> 16 \<and> (2::int) ^ nat (1 + 1 + 1) \<le> 16 \<and>
   (\<exists>bs. Nj 16 = Inr bs \<and> last bs = 1 \<and> (\<exists>circ. factorize 16 8 1 1 = Inr circ) \<and>
      length (snd (snd (factorize_registers 1 1))) < length bs)"
proof -
  have h: "(1::int) \<le> 16" by simp
  have p: "(2::int) ^ nat (1 + 1 + 1) \<le> 16" by simp
  from Nj_length_unpadded [OF h, of 1 1 8] p h show ?thesis by blast
qed

section \<open>Decoding a measured outcome\<close>

lemma bin_digits_chars: "list_all (\<lambda>c. c = CHR ''0'' \<or> c = CHR ''1'') (bin_digits n) \<and> bin_digits n \<noteq> []"
proof (induction n rule: bin_digits.induct)
  case (1 n)
  show ?case
  proof (cases "n < 2")
    case True
    then show ?thesis by (subst (1 2) bin_digits.simps) (simp add: bit_char_def)
  next
    case False
    then show ?thesis using "1.IH" by (subst (1 2) bin_digits.simps) (simp add: bit_char_def)
  qed
qed

lemma bin_digits_value:
  "foldl (\<lambda>acc c. 2 * acc + (if c = CHR ''1'' then 1 else 0)) 0 (bin_digits n) = int n"
proof (induction n rule: bin_digits.induct)
  case (1 n)
  show ?case
  proof (cases "n < 2")
    case True
    then have "n = 0 \<or> n = 1" by arith
    then show ?thesis by (subst bin_digits.simps) (auto simp: bit_char_def)
  next
    case False
    have "bin_digits n = bin_digits (n div 2) @ [bit_char (n mod 2)]"
      using False by (subst bin_digits.simps) simp
    moreover have "n mod 2 = 0 \<Longrightarrow> 2 * int (n div 2) = int n"
      by presburger
    moreover have "n mod 2 = Suc 0 \<Longrightarrow> 2 * int (n div 2) + 1 = int n"
      by presburger
    ultimately show ?thesis using "1.IH" [OF False]
      by (simp add: bit_char_def)
  qed
qed

lemma int_base2_bin_digits: "int_base2 (bin_digits n) = Inr (int n)"
  using bin_digits_chars [of n] by (simp add: int_base2_def bin_digits_value)

lemma to01_BitString_digits:
  "list_comp int_py cs = Inr bs \<Longrightarrow> list_all (\<lambda>c. c = CHR ''0'' \<or> c = CHR ''1'') cs \<Longrightarrow>
   to01 (BitString bs) = cs"
  by (induction cs arbitrary: bs)
    (auto simp: to01_def BitString_def int_py_def split: sum.splits)

lemma decode_outcome_rev_Nj:
  assumes "0 \<le> N" and "Nj N = Inr bs"
  shows "decode_outcome (BitString (rev bs)) = Inr N"
proof -
  have "list_comp int_py (rev (bin_digits (nat N))) = Inr bs"
    using assms by (simp add: Nj_def bin_py_def)
  moreover have "list_all (\<lambda>c. c = CHR ''0'' \<or> c = CHR ''1'') (rev (bin_digits (nat N)))"
    using bin_digits_chars [of "nat N"] by simp
  ultimately have "to01 (BitString bs) = rev (bin_digits (nat N))"
    by (rule to01_BitString_digits)
  then have "to01 (BitString (rev bs)) = bin_digits (nat N)"
    by (simp add: to01_def BitString_def rev_map [symmetric])
  then show ?thesis
    using assms(1) by (simp add: decode_outcome_def int_base2_bin_digits)
qed

text \<open>
  Claim C1. Encoding \<open>N\<close> least significant bit first, as \<^verbatim>\<open>factorize\<close> does, and decoding the
  same bits with \<^verbatim>\<open>int(bitarray.to01(), 2)\<close> should give \<open>N\<close> back. The decoder reads the
  first bit as the most significant one: the digits of 13 are \<open>1, 0, 1, 1\<close> and decode to 11,
  or to 352 when the outcome carries the five further zero bits of a Z register of nine
  qubits. The notebook's own closing text reads the outcome \<open>1011\<close> as 13. Decoding the
  reversed digits does return \<open>N\<close> (\<open>decode_outcome_rev_Nj\<close>).
\<close>

theorem roundtrip_decodes_reversed:
  "Nj 13 = Inr [1, 0, 1, 1] \<and>
   decode_outcome (BitString [1, 0, 1, 1]) = Inr 11 \<and>
   decode_outcome (BitString ([1, 0, 1, 1] @ replicate 5 0)) = Inr 352"
proof -
  have "replicate 5 (0::int) = [0, 0, 0, 0, 0]"
    by (simp add: numeral_eq_Suc)
  then show ?thesis
    by (simp add: Nj_def bin_py_def bin_digits.simps bit_char_def int_py_def
        decode_outcome_def BitString_def to01_def int_base2_def)
qed

section \<open>The register allocation of \<^verbatim>\<open>factorize\<close>\<close>

lemma contiguous_range: "contiguous (range_py a b)"
proof (cases "a < b")
  case True
  then have "range_py a b = a # [a + 1..b - 1]" by (simp add: range_py_def upto_rec1)
  moreover have "a + int (length (range_py a b)) = b" using True by (simp add: range_py_def)
  ultimately show ?thesis by (simp add: contiguous_def)
next
  case False
  then show ?thesis by (simp add: contiguous_def range_py_def)
qed

lemma range_py_append: "a \<le> b \<Longrightarrow> b \<le> c \<Longrightarrow> range_py a b @ range_py b c = range_py a c"
proof -
  assume ab: "a \<le> b" and bc: "b \<le> c"
  show ?thesis
  proof (cases "b = c")
    case True then show ?thesis by (simp add: range_py_def)
  next
    case False
    then have "b \<le> c - 1" using bc by simp
    from upto_split1 [OF ab this] show ?thesis by (simp add: range_py_def)
  qed
qed

text \<open>
  Claim C2. For \<open>nx \<ge> 1\<close> and \<open>ny \<ge> 1\<close> the registers X, Y, Z of \<^verbatim>\<open>factorize\<close> are each
  contiguous and increasing, pairwise disjoint, of sizes \<open>nx\<close>, \<open>ny\<close> and \<open>nx + ny + 1\<close>, and
  one after the other they are exactly the indices \<open>0, \<dots>, nx + ny + nx + ny\<close>.
\<close>

theorem registers_partition:
  assumes "1 \<le> nx" and "1 \<le> ny"
  shows "case factorize_registers nx ny of
           (X, Y, Z) \<Rightarrow>
             contiguous X \<and> contiguous Y \<and> contiguous Z \<and>
             sorted X \<and> sorted Y \<and> sorted Z \<and>
             set X \<inter> set Y = {} \<and> set X \<inter> set Z = {} \<and> set Y \<inter> set Z = {} \<and>
             X @ Y @ Z = range_py 0 (nx + ny + nx + ny + 1) \<and>
             int (length X) = nx \<and> int (length Y) = ny \<and> int (length Z) = nx + ny + 1"
proof -
  have "range_py nx (nx + ny) @ range_py (nx + ny) (nx + ny + (nx + ny + 1))
      = range_py nx (nx + ny + nx + ny + 1)"
    using assms by (simp add: range_py_append add.assoc)
  then have "range_py 0 nx @ range_py nx (nx + ny) @ range_py (nx + ny) (nx + ny + (nx + ny + 1))
      = range_py 0 (nx + ny + nx + ny + 1)"
    using assms by (simp add: range_py_append)
  moreover have "sorted (range_py a b)" for a b by (simp add: range_py_def)
  moreover have "set (range_py 0 nx) \<inter> set (range_py nx (nx + ny)) = {}"
    "set (range_py 0 nx) \<inter> set (range_py (nx + ny) (nx + ny + (nx + ny + 1))) = {}"
    "set (range_py nx (nx + ny)) \<inter> set (range_py (nx + ny) (nx + ny + (nx + ny + 1))) = {}"
    using assms by (auto simp: range_py_def)
  moreover have "int (length (range_py 0 nx)) = nx" "int (length (range_py nx (nx + ny))) = ny"
    "int (length (range_py (nx + ny) (nx + ny + (nx + ny + 1)))) = nx + ny + 1"
    using assms by (simp_all add: range_py_def)
  ultimately show ?thesis
    by (simp add: factorize_registers_def Let_def contiguous_range)
qed

theorem registers_partition_witness:
  "(1::int) \<le> 2 \<and> (1::int) \<le> 1 \<and>
   factorize_registers 2 1 = ([0, 1], [2], [3, 4, 5, 6]) \<and>
   [0, 1] @ [2] @ [3, 4, 5, 6] = range_py 0 (2 + 1 + 2 + 1 + 1)"
proof -
  have h: "(1::int) \<le> 2" "(1::int) \<le> 1" by simp_all
  have e: "factorize_registers 2 1 = ([0, 1], [2], [3, 4, 5, 6])"
    by (simp add: factorize_registers_def range_py_def upto_rec1)
  from registers_partition [OF h] e show ?thesis by simp
qed

section \<open>What \<^verbatim>\<open>factorize\<close> returns\<close>

lemma factorize_result:
  "factorize N K nx ny = (if N < 0 then Inl ValueError else Inr (fold (\<lambda>k circ. circ) (range_py 0 K) Circuit))"
  using Nj_negative [of N] Nj_nonneg [of N]
  by (auto simp: factorize_def factorize_registers_def Let_def)

lemma fold_skip: "fold (\<lambda>k s. s) xs s = s"
  by (induction xs) simp_all

text \<open>
  Claim C3 asks that \<^verbatim>\<open>factorize\<close> reject a register size \<open>nx \<le> 0\<close> or \<open>ny \<le> 0\<close>. The
  function has no such check: with both sizes zero it returns a circuit.
\<close>

theorem factorize_accepts_empty_registers: "factorize 143 8 0 0 = Inr []"
  by (simp add: factorize_result fold_skip Circuit_def)

text \<open>
  Claim C3, as the code has it. With \<open>nx \<le> 0\<close> or \<open>ny \<le> 0\<close> the call returns a circuit
  whenever \<open>N \<ge> 0\<close>; the only failure is the ValueError for a negative \<open>N\<close>, raised while
  the digits of \<open>N\<close> are read, whatever the sizes are.
\<close>

theorem factorize_no_size_check:
  assumes "nx \<le> 0 \<or> ny \<le> 0"
  shows "(0 \<le> N \<longrightarrow> (\<exists>circ. factorize N K nx ny = Inr circ)) \<and>
         (N < 0 \<longrightarrow> factorize N K nx ny = Inl ValueError)"
  by (simp add: factorize_result)

theorem factorize_no_size_check_witness:
  "((0::int) \<le> 0 \<or> (4::int) \<le> 0) \<and> (0::int) \<le> 143 \<and> (\<exists>circ. factorize 143 8 0 4 = Inr circ)"
proof -
  have h: "(0::int) \<le> 0 \<or> (4::int) \<le> 0" by simp
  from factorize_no_size_check [OF h, of 143 8] show ?thesis by simp
qed

section \<open>What \<^verbatim>\<open>grover\<close> and \<^verbatim>\<open>oracle\<close> return\<close>

lemma fold_append_callback:
  "fold (\<lambda>i circ. append_circ circ (f i)) xs acc = acc @ concat (map f xs)"
  by (induction xs arbitrary: acc) (simp_all add: append_circ_def)

lemma grover_callbacks_only:
  "grover iterations oracle_circ callback =
     concat (map (\<lambda>i. case callback of None \<Rightarrow> [] | Some cb \<Rightarrow> cb i) (range_py 0 iterations))"
proof (cases callback)
  case None
  then show ?thesis by (simp add: grover_def fold_skip Circuit_def)
next
  case (Some cb)
  then show ?thesis by (simp add: grover_def fold_append_callback Circuit_def)
qed

text \<open>
  Claim C4. Each iteration should contribute the callback's instructions, then the
  oracle's, then the diffusion operator's. The loop of \<^verbatim>\<open>grover\<close> appends the callback's
  instructions only (\<open>grover_callbacks_only\<close>): for one iteration and no callback the
  result is empty, where the specification has the oracle followed by the diffusion.
\<close>

theorem grover_omits_oracle_and_diffusion:
  "grover 1 [Instruction (Control 1 GateZ) [0, 1]] None = [] \<and>
   grover_spec 1 [Instruction (Control 1 GateZ) [0, 1]] None [Instruction (Diffusion 2) [0, 1]]
     = [Instruction (Control 1 GateZ) [0, 1], Instruction (Diffusion 2) [0, 1]]"
  by (simp add: grover_callbacks_only grover_spec_def range_py_def upto_rec1)

text \<open>
  Claim C5. The oracle for a bitstring should be the X gates on the qubits whose bit is 0,
  one multicontrol-Z on all qubits, and the same X gates again. \<^verbatim>\<open>oracle\<close> returns the empty
  circuit; for the notebook's target \<open>10101010\<close> the specification has nine instructions.
\<close>

theorem oracle_py_returns_empty:
  "oracle_py (BitString [1, 0, 1, 0, 1, 0, 1, 0]) = [] \<and>
   oracle_spec (BitString [1, 0, 1, 0, 1, 0, 1, 0]) =
     [Instruction GateX [1], Instruction GateX [3], Instruction GateX [5], Instruction GateX [7],
      Instruction (Control 7 GateZ) [0, 1, 2, 3, 4, 5, 6, 7],
      Instruction GateX [1], Instruction GateX [3], Instruction GateX [5], Instruction GateX [7]]"
  by (simp add: oracle_py_def Circuit_def oracle_spec_def flips_spec_def BitString_def upt_rec)

section \<open>The loops of \<^verbatim>\<open>PhiMultiply\<close>\<close>

lemma two_pi_pos: "0 < two_pi"
  by (simp add: two_pi_def)

lemma angle_py_small:
  assumes "1 \<le> k - j - i + 1" and "k - j - i + 1 \<le> 1023"
  shows "angle_py k j i = Inr (two_pi / 2 ^ nat (k - j - i + 1))"
  using assms by (simp add: angle_py_def float_pow2_def float_div_def power_int_def)

lemma angle_py_overflow: "1024 \<le> k - j - i + 1 \<Longrightarrow> angle_py k j i = Inl OverflowError"
  by (simp add: angle_py_def float_pow2_def)

lemma guard_py_below:
  assumes "0 < a" and "a < two_pi"
  shows "guard_py a = Inr True"
proof -
  have "0 \<le> a / two_pi" "a / two_pi < 1" using assms two_pi_pos by simp_all
  then have "\<lfloor>a / two_pi\<rfloor> = 0" by linarith
  then show ?thesis using assms two_pi_pos by (simp add: guard_py_def float_mod_def)
qed

lemma angle_bounds:
  assumes "1 \<le> n"
  shows "0 < two_pi / 2 ^ n" and "two_pi / 2 ^ n \<le> two_pi / 2"
proof -
  show "0 < two_pi / 2 ^ n" using two_pi_pos by simp
  have "(2::real) ^ 1 \<le> 2 ^ n" using assms by (intro power_increasing) simp_all
  then have "two_pi / 2 ^ n \<le> two_pi / 2 ^ 1"
    using two_pi_pos by (intro divide_left_mono) simp_all
  then show "two_pi / 2 ^ n \<le> two_pi / 2" by simp
qed

lemma PhiMultiply_body_small:
  assumes "1 \<le> k - j - i + 1" and "k - j - i + 1 \<le> 1023"
  shows "PhiMultiply_body j i k circ = Inr circ"
proof -
  let ?a = "two_pi / 2 ^ nat (k - j - i + 1)"
  have n: "1 \<le> nat (k - j - i + 1)" using assms by simp
  have "0 < ?a" by (rule angle_bounds(1) [OF n])
  moreover have "?a < two_pi"
    using angle_bounds(2) [OF n] two_pi_pos by linarith
  ultimately have "guard_py ?a = Inr True" by (rule guard_py_below)
  then show ?thesis by (simp add: PhiMultiply_body_def angle_py_small [OF assms])
qed

lemma PhiMultiply_body_overflow:
  "1024 \<le> k - j - i + 1 \<Longrightarrow> PhiMultiply_body j i k circ = Inl OverflowError"
  by (simp add: PhiMultiply_body_def angle_py_overflow)

lemma mem_triples:
  "(j, i, k) \<in> set (PhiMultiply_triples nx ny nz) \<longleftrightarrow>
     0 \<le> j \<and> j < nx \<and> 0 \<le> i \<and> i < ny \<and> i + j \<le> k \<and> k < nz"
  by (force simp: PhiMultiply_triples_def range_py_def)

lemma for_each_all_ok:
  "(\<And>x s. x \<in> set xs \<Longrightarrow> body x s = Inr s) \<Longrightarrow> for_each xs body s = Inr s"
  by (induction xs) simp_all

lemma PhiMultiply_small:
  assumes "length Z \<le> 1023"
  shows "PhiMultiply X Y Z = Inr []"
proof -
  have inner: "for_each (range_py (i + j) (int (length Z))) (\<lambda>k. PhiMultiply_body j i k) s = Inr s"
    if "0 \<le> j" "0 \<le> i" for j i s
  proof (rule for_each_all_ok)
    fix k s'
    assume "k \<in> set (range_py (i + j) (int (length Z)))"
    then have "1 \<le> k - j - i + 1" "k - j - i + 1 \<le> 1023"
      using assms that by (auto simp: range_py_def)
    then show "PhiMultiply_body j i k s' = Inr s'" by (rule PhiMultiply_body_small)
  qed
  have middle: "for_each (range_py 0 (int (length Y)))
      (\<lambda>i. for_each (range_py (i + j) (int (length Z))) (\<lambda>k. PhiMultiply_body j i k)) s = Inr s"
    if "0 \<le> j" for j s
  proof (rule for_each_all_ok)
    fix i s'
    assume "i \<in> set (range_py 0 (int (length Y)))"
    then have "0 \<le> i" by (simp add: range_py_def)
    with that show "for_each (range_py (i + j) (int (length Z))) (\<lambda>k. PhiMultiply_body j i k) s' = Inr s'"
      by (rule inner)
  qed
  have "for_each (range_py 0 (int (length X))) (\<lambda>j. for_each (range_py 0 (int (length Y)))
      (\<lambda>i. for_each (range_py (i + j) (int (length Z))) (\<lambda>k. PhiMultiply_body j i k))) s = Inr s" for s
  proof (rule for_each_all_ok)
    fix j s'
    assume "j \<in> set (range_py 0 (int (length X)))"
    then have "0 \<le> j" by (simp add: range_py_def)
    then show "for_each (range_py 0 (int (length Y)))
      (\<lambda>i. for_each (range_py (i + j) (int (length Z))) (\<lambda>k. PhiMultiply_body j i k)) s' = Inr s'"
      by (rule middle)
  qed
  then show ?thesis by (simp add: PhiMultiply_def Circuit_def)
qed

text \<open>
  Claim C6. \<^verbatim>\<open>PhiMultiply\<close> should hold one doubly-controlled phase gate per index triple.
  The guarded statement of the loop is \<^verbatim>\<open>pass\<close>: for registers of sizes 1, 1 and 3 the
  result is empty, where the specification has three gates.
\<close>

theorem PhiMultiply_emits_nothing:
  "PhiMultiply [0] [1] [2, 3, 4] = Inr [] \<and>
   PhiMultiply_spec [0] [1] [2, 3, 4] =
     [Instruction (Control 2 (GateP (2 * pi / 2))) [0, 1, 2],
      Instruction (Control 2 (GateP (2 * pi / 4))) [0, 1, 3],
      Instruction (Control 2 (GateP (2 * pi / 8))) [0, 1, 4]]"
proof
  show "PhiMultiply [0] [1] [2, 3, 4] = Inr []" by (rule PhiMultiply_small) simp
  show "PhiMultiply_spec [0] [1] [2, 3, 4] =
     [Instruction (Control 2 (GateP (2 * pi / 2))) [0, 1, 2],
      Instruction (Control 2 (GateP (2 * pi / 4))) [0, 1, 3],
      Instruction (Control 2 (GateP (2 * pi / 8))) [0, 1, 4]]"
    by (simp add: PhiMultiply_spec_def PhiMultiply_triples_def range_py_def upto_rec1)
qed

lemma for_each_append:
  "for_each (xs @ ys) body s =
     (case for_each xs body s of Inl e \<Rightarrow> Inl e | Inr s' \<Rightarrow> for_each ys body s')"
  by (induction xs arbitrary: s) (simp_all split: sum.splits)

lemma PhiMultiply_large:
  assumes "X \<noteq> []" and "Y \<noteq> []" and "1024 \<le> length Z"
  shows "PhiMultiply X Y Z = Inl OverflowError"
proof -
  let ?nz = "int (length Z)"
  let ?inner = "\<lambda>j i. for_each (range_py (i + j) ?nz) (\<lambda>k. PhiMultiply_body j i k)"
  let ?middle = "\<lambda>j. for_each (range_py 0 (int (length Y))) (\<lambda>i. ?inner j i)"
  have split: "range_py 0 ?nz = range_py 0 1023 @ 1023 # range_py 1024 ?nz"
    using assms(3) upto_split3 [of 0 1023 "?nz - 1"] by (simp add: range_py_def)
  have pre: "for_each (range_py 0 1023) (\<lambda>k. PhiMultiply_body 0 0 k) s = Inr s" for s
    by (rule for_each_all_ok) (auto simp: range_py_def intro: PhiMultiply_body_small)
  have inner0: "for_each (range_py 0 ?nz) (PhiMultiply_body 0 0) s = Inl OverflowError" for s
    using pre by (simp add: split for_each_append PhiMultiply_body_overflow)
  have "range_py 0 (int (length Y)) = 0 # range_py 1 (int (length Y))"
    using assms(2) by (cases Y) (simp_all add: range_py_def upto_rec1)
  then have middle0: "for_each (range_py 0 (int (length Y)))
      (\<lambda>i. for_each (range_py i ?nz) (PhiMultiply_body 0 i)) s = Inl OverflowError" for s
    by (simp add: inner0)
  have "range_py 0 (int (length X)) = 0 # range_py 1 (int (length X))"
    using assms(1) by (cases X) (simp_all add: range_py_def upto_rec1)
  then show ?thesis
    by (simp add: PhiMultiply_def middle0)
qed

text \<open>
  Claim C9 says that for every triple of the loops the angle lies in \<open>(0, \<pi>]\<close> and the
  guard holds, so that every triple reaches the guarded statement. With a Z register of
  1024 qubits the triple \<open>(0, 0, 1023)\<close> has exponent 1024: \<^verbatim>\<open>2.0**1024\<close> raises
  OverflowError, no angle is computed, and the call ends there.
\<close>

theorem PhiMultiply_overflow_at_1024:
  "(0, 0, 1023) \<in> set (PhiMultiply_triples 1 1 1024) \<and>
   angle_py 1023 0 0 = Inl OverflowError \<and>
   PhiMultiply [0] [1] (range_py 2 1026) = Inl OverflowError"
proof -
  have "PhiMultiply [0] [1] (range_py 2 1026) = Inl OverflowError"
    by (rule PhiMultiply_large) (simp_all add: range_py_def)
  then show ?thesis by (simp add: mem_triples angle_py_overflow)
qed

text \<open>
  Claim C9, as the code has it. For every triple \<open>(j, i, k)\<close> of the loops the exponent
  \<open>k - j - i + 1\<close> is at least 1. While it is at most 1023, which is always so when Z has at
  most 1023 qubits, the angle is computed, lies between 0 (excluded) and the double of
  \<open>\<pi>\<close> (included), and the guard is true; from 1024 on the power raises OverflowError.
  In no case is the guard false.
\<close>

theorem PhiMultiply_guard_holds:
  assumes "(j, i, k) \<in> set (PhiMultiply_triples nx ny nz)"
  shows "1 \<le> k - j - i + 1 \<and>
         (nz \<le> 1023 \<longrightarrow> k - j - i + 1 \<le> 1023) \<and>
         (if k - j - i + 1 \<le> 1023
          then \<exists>a. angle_py k j i = Inr a \<and> 0 < a \<and> a \<le> two_pi / 2 \<and> guard_py a = Inr True
          else angle_py k j i = Inl OverflowError)"
proof -
  have r: "0 \<le> j" "0 \<le> i" "i + j \<le> k" "k < nz"
    using assms by (simp_all add: mem_triples)
  then have e1: "1 \<le> k - j - i + 1" by simp
  have small: "\<exists>a. angle_py k j i = Inr a \<and> 0 < a \<and> a \<le> two_pi / 2 \<and> guard_py a = Inr True"
    if e2: "k - j - i + 1 \<le> 1023"
  proof -
    let ?a = "two_pi / 2 ^ nat (k - j - i + 1)"
    have n: "1 \<le> nat (k - j - i + 1)" using e1 by simp
    have a: "angle_py k j i = Inr ?a" by (rule angle_py_small [OF e1 e2])
    have b: "0 < ?a" "?a \<le> two_pi / 2" by (rule angle_bounds [OF n])+
    then have "?a < two_pi" using two_pi_pos by linarith
    with b(1) have "guard_py ?a = Inr True" by (rule guard_py_below)
    with a b show ?thesis by blast
  qed
  have big: "angle_py k j i = Inl OverflowError" if "\<not> k - j - i + 1 \<le> 1023"
    using that by (intro angle_py_overflow) simp
  have "nz \<le> 1023 \<longrightarrow> k - j - i + 1 \<le> 1023" using r by simp
  with e1 small big show ?thesis by simp
qed

theorem PhiMultiply_guard_holds_witness:
  "(0, 0, 2) \<in> set (PhiMultiply_triples 1 1 3) \<and> (1::int) \<le> 2 - 0 - 0 + 1 \<and>
   (\<exists>a. angle_py 2 0 0 = Inr a \<and> 0 < a \<and> a \<le> two_pi / 2 \<and> guard_py a = Inr True)"
proof -
  have h: "(0, 0, 2) \<in> set (PhiMultiply_triples 1 1 3)" by (simp add: mem_triples)
  from PhiMultiply_guard_holds [OF h] h show ?thesis by simp
qed

section \<open>Allocation and effects of circuit construction\<close>

lemma amplitude_callback_builds:
  "builds (amplitude_callback_st bitstring) (amplitude_callback bitstring)"
  by (simp add: builds_def amplitude_callback_st_def amplitude_callback_def Circuit_new_def
      push_at_def push_def Circuit_def nth_append)

lemma grover_st_loop:
  assumes cb: "builds cb f"
    and fr: "take n h1 = h" and n: "n < length h1"
  shows "let h' = fold (\<lambda>i h1. case cb i h1 of (c, h2) \<Rightarrow> append_at n c h2) xs h1
         in take n h' = h \<and> length h1 \<le> length h' \<and> h' ! n = h1 ! n @ concat (map f xs)"
  using fr n
proof (induction xs arbitrary: h1)
  case Nil
  then show ?case by simp
next
  case (Cons i xs)
  obtain c h2 where step: "cb i h1 = (c, h2)" by (cases "cb i h1")
  from cb have b: "take (length h1) h2 = h1" "length h1 \<le> length h2" "c < length h2" "h2 ! c = f i"
    using step unfolding builds_def by (metis (mono_tags, lifting) case_prod_conv)+
  let ?h3 = "append_at n c h2"
  have n2: "n < length h2" using Cons.prems b(2) by simp
  have same: "h2 ! n = h1 ! n"
    using b(1) Cons.prems(2) by (metis nth_take)
  have l3: "length ?h3 = length h2" by (simp add: append_at_def)
  have v3: "?h3 ! n = h1 ! n @ f i"
    using n2 same b(4) by (simp add: append_at_def append_circ_def)
  have "take n h2 = take n (take (length h1) h2)"
    using Cons.prems(2) by (simp add: min_def)
  then have "take n h2 = h" using b(1) Cons.prems(1) by simp
  then have t3: "take n ?h3 = h" by (simp add: append_at_def)
  have n3: "n < length ?h3" using n2 l3 by simp
  from Cons.IH [OF t3 n3] show ?case
    using step l3 v3 b(2) by (simp add: Let_def)
qed

lemma grover_st_result:
  assumes "callback_refines callback_st callback"
  shows "fst (grover_st iterations oracle_circ callback_st h) = length h
      \<and> take (length h) (snd (grover_st iterations oracle_circ callback_st h)) = h
      \<and> length h < length (snd (grover_st iterations oracle_circ callback_st h))
      \<and> snd (grover_st iterations oracle_circ callback_st h) ! length h
           = grover iterations oracle_content callback"
proof -
  have "fst (grover_st iterations oracle_circ callback_st h) = length h"
    by (simp add: grover_st_def Circuit_new_def)
  moreover consider (none) "callback_st = None" "callback = None"
    | (some) cb f where "callback_st = Some cb" "callback = Some f" "builds cb f"
    using assms by (auto simp: callback_refines_def split: option.splits)
  then have "take (length h) (snd (grover_st iterations oracle_circ callback_st h)) = h
      \<and> length h < length (snd (grover_st iterations oracle_circ callback_st h))
      \<and> snd (grover_st iterations oracle_circ callback_st h) ! length h
           = grover iterations oracle_content callback"
  proof cases
    case none
    then show ?thesis
      by (simp add: grover_st_def Circuit_new_def fold_skip grover_callbacks_only Circuit_def)
  next
    case some
    have "take (length h) (h @ [Circuit]) = h" "length h < length (h @ [Circuit])" by simp_all
    from grover_st_loop [OF some(3) this, of "range_py 0 iterations"] show ?thesis
      using some(1,2)
      by (simp add: grover_st_def Circuit_new_def grover_callbacks_only Circuit_def Let_def)
  qed
  ultimately show ?thesis by simp
qed

lemma factorize_st_result:
  "factorize_st N K nx ny h =
     (case factorize N K nx ny of Inl e \<Rightarrow> Inl e | Inr circ \<Rightarrow> Inr (length h, h @ [circ]))"
  by (simp add: factorize_st_def factorize_def factorize_registers_def Let_def Circuit_new_def
      fold_skip split: sum.splits)

text \<open>
  Claim C8 says that two calls of \<^verbatim>\<open>grover\<close> with the same arguments return equal circuits
  and that no call changes shared state. \<^verbatim>\<open>grover\<close> calls whatever callback it is given:
  with the callback that pushes onto the circuit object 1 and returns it, the first call
  changes object 1 from empty to one instruction and returns a circuit of one instruction;
  the second call, with the same arguments, returns a circuit of two.
\<close>

theorem grover_passes_on_callback_effects:
  "grover_st 1 0 (Some (shared_callback_st 1 [True])) [[], []] =
     (2, [[], [Instruction (Amplitude [True]) [0]], [Instruction (Amplitude [True]) [0]]]) \<and>
   grover_st 1 0 (Some (shared_callback_st 1 [True]))
       [[], [Instruction (Amplitude [True]) [0]], [Instruction (Amplitude [True]) [0]]] =
     (3, [[], [Instruction (Amplitude [True]) [0], Instruction (Amplitude [True]) [0]],
          [Instruction (Amplitude [True]) [0]],
          [Instruction (Amplitude [True]) [0], Instruction (Amplitude [True]) [0]]])"
  by (simp add: grover_st_def Circuit_new_def range_py_def upto_rec1 shared_callback_st_def
      push_at_def push_def append_at_def append_circ_def Circuit_def)

text \<open>
  Claim C8, as the code has it. \<^verbatim>\<open>factorize\<close> always, and \<^verbatim>\<open>grover\<close> when its callback is
  absent or only builds circuits (as the closure of \<^verbatim>\<open>amplitude_callback\<close> does), return
  their circuit in a newly allocated object, leave every object that existed before the
  call unchanged, and produce instructions that depend on the arguments only: a second
  call with the same arguments returns another new object with equal contents. The
  contents are those of the value-level functions \<open>grover\<close> and \<open>factorize\<close>.
\<close>

theorem construction_fresh_and_deterministic:
  assumes "callback_refines callback_st callback"
  shows "(case grover_st iterations oracle_circ callback_st h of
            (c1, h1) \<Rightarrow>
              (case grover_st iterations oracle_circ callback_st h1 of
                 (c2, h2) \<Rightarrow>
                   c1 = length h \<and> c2 = length h1 \<and> c1 < c2 \<and> c2 < length h2 \<and>
                   take (length h) h1 = h \<and> take (length h1) h2 = h1 \<and>
                   h1 ! c1 = grover iterations (h ! oracle_circ) callback \<and>
                   h2 ! c2 = h2 ! c1))
       \<and> (case factorize_st N K nx ny h of
            Inl e \<Rightarrow> factorize N K nx ny = Inl e
          | Inr (c1, h1) \<Rightarrow>
              (case factorize_st N K nx ny h1 of
                 Inl e \<Rightarrow> False
               | Inr (c2, h2) \<Rightarrow>
                   c1 = length h \<and> c2 = length h1 \<and> c1 < c2 \<and> c2 < length h2 \<and>
                   take (length h) h1 = h \<and> take (length h1) h2 = h1 \<and>
                   factorize N K nx ny = Inr (h1 ! c1) \<and>
                   h2 ! c2 = h2 ! c1))"
proof
  obtain c1 h1 where r1: "grover_st iterations oracle_circ callback_st h = (c1, h1)"
    by (cases "grover_st iterations oracle_circ callback_st h")
  obtain c2 h2 where r2: "grover_st iterations oracle_circ callback_st h1 = (c2, h2)"
    by (cases "grover_st iterations oracle_circ callback_st h1")
  note a = grover_st_result [OF assms, where iterations = iterations and oracle_circ = oracle_circ
      and h = h and oracle_content = "h ! oracle_circ"]
  note b = grover_st_result [OF assms, where iterations = iterations and oracle_circ = oracle_circ
      and h = h1 and oracle_content = "h ! oracle_circ"]
  have c1: "c1 = length h" and t1: "take (length h) h1 = h" and l1: "length h < length h1"
    and v1: "h1 ! length h = grover iterations (h ! oracle_circ) callback"
    using a by (simp_all add: r1)
  have c2: "c2 = length h1" and t2: "take (length h1) h2 = h1" and l2: "length h1 < length h2"
    and v2: "h2 ! length h1 = grover iterations (h ! oracle_circ) callback"
    using b by (simp_all add: r2)
  have "h2 ! length h = h1 ! length h"
    using t2 l1 by (metis nth_take)
  then have "h2 ! c2 = h2 ! c1" using c1 c2 v1 v2 by simp
  then show "case grover_st iterations oracle_circ callback_st h of
            (c1, h1) \<Rightarrow>
              (case grover_st iterations oracle_circ callback_st h1 of
                 (c2, h2) \<Rightarrow>
                   c1 = length h \<and> c2 = length h1 \<and> c1 < c2 \<and> c2 < length h2 \<and>
                   take (length h) h1 = h \<and> take (length h1) h2 = h1 \<and>
                   h1 ! c1 = grover iterations (h ! oracle_circ) callback \<and>
                   h2 ! c2 = h2 ! c1)"
    using c1 c2 t1 t2 l1 l2 v1 by (simp add: r1 r2)
next
  show "case factorize_st N K nx ny h of
            Inl e \<Rightarrow> factorize N K nx ny = Inl e
          | Inr (c1, h1) \<Rightarrow>
              (case factorize_st N K nx ny h1 of
                 Inl e \<Rightarrow> False
               | Inr (c2, h2) \<Rightarrow>
                   c1 = length h \<and> c2 = length h1 \<and> c1 < c2 \<and> c2 < length h2 \<and>
                   take (length h) h1 = h \<and> take (length h1) h2 = h1 \<and>
                   factorize N K nx ny = Inr (h1 ! c1) \<and>
                   h2 ! c2 = h2 ! c1)"
    by (cases "factorize N K nx ny") (simp_all add: factorize_st_result nth_append)
qed

theorem construction_fresh_and_deterministic_witness:
  "callback_refines (Some (amplitude_callback_st [True, False])) (Some (amplitude_callback [True, False])) \<and>
   grover_st 2 0 (Some (amplitude_callback_st [True, False])) [[]] =
     (1, [[], [Instruction (Amplitude [True, False]) [0], Instruction (Amplitude [True, False]) [1]],
          [Instruction (Amplitude [True, False]) [0]], [Instruction (Amplitude [True, False]) [1]]]) \<and>
   grover 2 ([[]] ! 0) (Some (amplitude_callback [True, False])) =
     [Instruction (Amplitude [True, False]) [0], Instruction (Amplitude [True, False]) [1]] \<and>
   factorize_st 143 8 4 4 [[]] = Inr (1, [[], []]) \<and>
   factorize 143 8 4 4 = Inr []"
proof -
  let ?A = "Some (amplitude_callback_st [True, False])"
  let ?a0 = "Instruction (Amplitude [True, False]) [0]"
  let ?a1 = "Instruction (Amplitude [True, False]) [1]"
  have h: "callback_refines ?A (Some (amplitude_callback [True, False]))"
    by (simp add: callback_refines_def amplitude_callback_builds)
  have g1: "grover_st 2 0 ?A [[]] = (1, [[], [?a0, ?a1], [?a0], [?a1]])"
    by (simp add: grover_st_def Circuit_new_def range_py_def upto_rec1 amplitude_callback_st_def
        push_at_def push_def append_at_def append_circ_def Circuit_def)
  have g2: "grover_st 2 0 ?A [[], [?a0, ?a1], [?a0], [?a1]] =
      (4, [[], [?a0, ?a1], [?a0], [?a1], [?a0, ?a1], [?a0], [?a1]])"
    by (simp add: grover_st_def Circuit_new_def range_py_def upto_rec1 amplitude_callback_st_def
        push_at_def push_def append_at_def append_circ_def Circuit_def)
  have f1: "factorize_st 143 8 4 4 [[]] = Inr (1, [[], []])"
    and f2: "factorize_st 143 8 4 4 [[], []] = Inr (2, [[], [], []])"
    by (simp_all add: factorize_st_result factorize_result fold_skip Circuit_def)
  from construction_fresh_and_deterministic [OF h, where iterations = 2 and oracle_circ = 0
      and h = "[[]]" and N = 143 and K = 8 and nx = 4 and ny = 4]
  show ?thesis
    using h by (simp add: g1 g2 f1 f2)
qed

end
